theory Spec2Isabelle
  imports Complex_Main "HOL-Library.Sublist" "HOL-Library.Multiset"
begin

section \<open>Errors and the file system\<close>

text \<open>
  The dashboard (app.py) reads a directory listing and two CSV tables. Every exception
  the modelled lines can raise is a value of \<open>py_error\<close>; a computation that may raise
  returns \<open>py_error + 'a\<close> with \<open>Inl\<close> for the exception.
\<close>

datatype py_error = FileNotFoundError | KeyError | IndexError | ValueError

text \<open>
  \<open>os.listdir\<close> reads the file system: a directory path is mapped to the names it holds,
  in the order the operating system enumerates them; a path that is no directory raises.
\<close>

type_synonym filesystem = "string \<Rightarrow> string list option"

definition listdir :: "filesystem \<Rightarrow> string \<Rightarrow> py_error + string list" where
  "listdir fs data_dir = (case fs data_dir of None \<Rightarrow> Inl FileNotFoundError | Some names \<Rightarrow> Inr names)"

section \<open>Artifact locator: \<open>get_all_slice_htmls\<close> (app.py, lines 25-34)\<close>

definition newline :: char where
  "newline = CHR 0x0A"

text \<open>
  \<open>os.path.join(data_dir, fname)\<close> on POSIX, for two components: an absolute second
  component replaces the first; otherwise the two are joined with one separator, which is
  left out when the first is empty or already ends with it.
\<close>

definition path_join :: "string \<Rightarrow> string \<Rightarrow> string" where
  "path_join a b =
     (if prefix ''/'' b then b
      else if a = [] \<or> last a = CHR ''/'' then a @ b
      else a @ ''/'' @ b)"

text \<open>
  \<open>os.path.basename\<close> (line 44 builds \<open>slice_file_names\<close> with it): everything after the
  last separator.
\<close>

definition basename :: "string \<Rightarrow> string" where
  "basename p = rev (takeWhile (\<lambda>c. c \<noteq> CHR ''/'') (rev p))"

text \<open>
  Line 28: \<open>re.match(r"slice_z=.*mm\.html$", fname)\<close>. \<open>re.match\<close> anchors at the start of
  the name. After the literal \<open>slice_z=\<close>, \<open>.*\<close> consumes any characters but the newline
  and the matcher backtracks over every split; \<open>mm\.html\<close> is a literal; Python's \<open>$\<close>
  holds at the end of the string and also just before a newline that ends the string.
  \<open>tail_matches\<close> is \<open>mm\.html$\<close> tried at one position, \<open>dotstar_tail\<close> tries every
  position \<open>.*\<close> can reach.
\<close>

definition tail_matches :: "string \<Rightarrow> bool" where
  "tail_matches s = (s = ''mm.html'' \<or> s = ''mm.html'' @ [newline])"

fun dotstar_tail :: "string \<Rightarrow> bool" where
  "dotstar_tail [] = tail_matches []"
| "dotstar_tail (c # cs) = (tail_matches (c # cs) \<or> (c \<noteq> newline \<and> dotstar_tail cs))"

definition re_match_slice :: "string \<Rightarrow> bool" where
  "re_match_slice fname = (prefix ''slice_z='' fname \<and> dotstar_tail (drop 8 fname))"

text \<open>
  Lines 30-32: \<open>re.search(r"slice_z=([0-9]+)mm", f)\<close> and \<open>int(match.group(1))\<close>.
  \<open>match_key_at\<close> tries the pattern at one position: the literal, then the greedy digit
  run (giving digits back never helps, the next pattern character is \<open>m\<close>), then \<open>mm\<close>;
  it returns group 1. \<open>re_search_key\<close> scans the start positions from the left and keeps
  the first match. \<open>int_of_digits\<close> is \<open>int\<close> on a string of ASCII digits (Python's
  integers are unbounded).
\<close>

definition is_digit :: "char \<Rightarrow> bool" where
  "is_digit c = (c \<in> set ''0123456789'')"

definition match_key_at :: "string \<Rightarrow> string option" where
  "match_key_at s =
     (if prefix ''slice_z='' s then
        (let r = drop 8 s; ds = takeWhile is_digit r in
         if ds \<noteq> [] \<and> prefix ''mm'' (dropWhile is_digit r) then Some ds else None)
      else None)"

fun re_search_key :: "string \<Rightarrow> string option" where
  "re_search_key [] = None"
| "re_search_key (c # cs) =
     (case match_key_at (c # cs) of Some ds \<Rightarrow> Some ds | None \<Rightarrow> re_search_key cs)"

definition digit_val :: "char \<Rightarrow> int" where
  "digit_val c = of_char c - 48"

definition int_of_digits :: "string \<Rightarrow> int" where
  "int_of_digits ds = foldl (\<lambda>n c. 10 * n + digit_val c) 0 ds"

definition z_key :: "string \<Rightarrow> int" where
  "z_key f = (case re_search_key f of Some ds \<Rightarrow> int_of_digits ds | None \<Rightarrow> 0)"

text \<open>
  Lines 26-29: the loop over the listing appends the joined path of every matching name
  to \<open>slice_htmls\<close>, here the accumulator.
\<close>

fun scan_listing :: "string \<Rightarrow> string list \<Rightarrow> string list \<Rightarrow> string list" where
  "scan_listing data_dir [] slice_htmls = slice_htmls"
| "scan_listing data_dir (fname # rest) slice_htmls =
     scan_listing data_dir rest
       (if re_match_slice fname then slice_htmls @ [path_join data_dir fname] else slice_htmls)"

text \<open>
  Line 33: \<open>sorted(slice_htmls, key=z_key)\<close>. Python's sort is stable; \<open>sort_key\<close> is the
  stable insertion sort of the list library, and a stable sort's result is unique.
\<close>

definition get_all_slice_htmls :: "filesystem \<Rightarrow> string \<Rightarrow> py_error + string list" where
  "get_all_slice_htmls fs data_dir =
     (case listdir fs data_dir of
        Inl e \<Rightarrow> Inl e
      | Inr names \<Rightarrow> Inr (sort_key z_key (scan_listing data_dir names [])))"

text \<open>Line 44: the names shown in the selection box.\<close>

definition slice_file_names :: "string list \<Rightarrow> string list" where
  "slice_file_names slice_htmls = map basename slice_htmls"

text \<open>
  The spec's words for an artifact name, \<open>slice_z=<digits>mm.<ext>\<close> with at least one
  digit: the literal, a non-empty digit run, then \<open>mm.\<close> and any extension.
\<close>

definition spec_slice_pattern :: "string \<Rightarrow> bool" where
  "spec_slice_pattern fname =
     (prefix ''slice_z='' fname \<and>
      (let r = drop 8 fname in
       takeWhile is_digit r \<noteq> [] \<and> prefix ''mm.'' (dropWhile is_digit r)))"

text \<open>The directory of the spec's example, under the program's own path \<open>data\<close>.\<close>

definition demo_fs :: filesystem where
  "demo_fs p =
     (if p = ''data'' then Some [''slice_z=100mm.html'', ''readme.txt'', ''slice_z=50mm.html'']
      else None)"

text \<open>Three more directories used as concrete inputs below.\<close>

definition nodigit_fs :: filesystem where
  "nodigit_fs p =
     (if p = ''data'' then Some [''slice_z=abcmm.html'', ''slice_z=50mm.svg''] else None)"

definition newline_fs :: filesystem where
  "newline_fs p = (if p = ''data'' then Some [''slice_z=5mm.html'' @ [newline]] else None)"

definition tie_fs :: filesystem where
  "tie_fs p =
     (if p = ''data'' then Some [''slice_z=7mm.html'', ''slice_z=bmm.html'', ''slice_z=amm.html'']
      else None)"

text \<open>
  A directory whose own path holds the key pattern: \<open>slice_z=9mm\<close>, with two slice files.
\<close>

definition keydir_fs :: filesystem where
  "keydir_fs p =
     (if p = ''slice_z=9mm'' then Some [''slice_z=20mm.html'', ''slice_z=5mm.html''] else None)"

section \<open>Tables: the two CSV files as data frames (app.py, lines 46-47)\<close>

text \<open>
  \<open>pd.read_csv\<close> gives a table of named columns, in file order, over the default row
  index \<open>0, 1, ..., n - 1\<close>. The columns the program computes with are numeric: a cell is
  a number or \<open>NaN\<close> (a missing value). The lines modelled here (126-133) only read and
  compare cells and never compute with them, so a number is a real and its order is the
  order of the floats.
\<close>

datatype cell = Num real | NaN

type_synonym series = "cell list"

type_synonym dataframe = "(string \<times> series) list"

definition columns :: "dataframe \<Rightarrow> string list" where
  "columns df = map fst df"

text \<open>
  What \<open>read_csv\<close> guarantees of its result: column names are distinct (duplicates in the
  file are renamed) and every column has one cell per row.
\<close>

definition table_ok :: "dataframe \<Rightarrow> nat \<Rightarrow> bool" where
  "table_ok df n = (distinct (columns df) \<and> list_all (\<lambda>s. length s = n) (map snd df))"

text \<open>
  \<open>df[name]\<close> raises \<open>KeyError\<close> for an absent column; \<open>s.iloc[0]\<close> raises
  \<open>IndexError\<close> on an empty column; \<open>df.loc[idx, name]\<close> raises \<open>KeyError\<close> for an absent
  column or row label.
\<close>

definition getitem :: "dataframe \<Rightarrow> string \<Rightarrow> py_error + series" where
  "getitem df name = (case map_of df name of None \<Rightarrow> Inl KeyError | Some s \<Rightarrow> Inr s)"

definition iloc0 :: "series \<Rightarrow> py_error + cell" where
  "iloc0 s = (case s of [] \<Rightarrow> Inl IndexError | c # _ \<Rightarrow> Inr c)"

definition loc :: "dataframe \<Rightarrow> nat \<Rightarrow> string \<Rightarrow> py_error + cell" where
  "loc df idx name =
     (case getitem df name of
        Inl e \<Rightarrow> Inl e
      | Inr s \<Rightarrow> if idx < length s then Inr (s ! idx) else Inl KeyError)"

text \<open>
  The reductions of pandas skip missing cells (\<open>skipna=True\<close> is the default):
  \<open>present\<close> lists the numbers of a column in row order. \<open>Series.max()\<close> (line 129) is
  the largest of them, and \<open>NaN\<close> for a column without numbers; it only compares, so it
  returns one of the cells.
\<close>

fun present :: "series \<Rightarrow> real list" where
  "present [] = []"
| "present (Num v # cs) = v # present cs"
| "present (NaN # cs) = present cs"

definition series_max :: "series \<Rightarrow> cell" where
  "series_max s = (case present s of [] \<Rightarrow> NaN | x # xs \<Rightarrow> Num (fold max xs x))"

text \<open>
  \<open>Series.idxmax()\<close> (line 130): the row label of the first occurrence of the largest
  number, missing cells skipped. \<open>argmax_from\<close> is the scan from the left that keeps the
  best row so far and replaces it only by a strictly larger number. On a column without any
  number pandas raises (\<open>ValueError\<close>; older versions return \<open>NaN\<close> and the \<open>loc\<close> of the
  next line raises instead).
\<close>

fun argmax_from :: "nat \<Rightarrow> (nat \<times> real) option \<Rightarrow> series \<Rightarrow> (nat \<times> real) option" where
  "argmax_from i best [] = best"
| "argmax_from i best (NaN # cs) = argmax_from (Suc i) best cs"
| "argmax_from i best (Num v # cs) =
     argmax_from (Suc i)
       (case best of
          None \<Rightarrow> Some (i, v)
        | Some (b, bv) \<Rightarrow> if bv < v then Some (i, v) else Some (b, bv))
       cs"

definition idxmax :: "series \<Rightarrow> py_error + nat" where
  "idxmax s = (case argmax_from 0 None s of None \<Rightarrow> Inl ValueError | Some (i, v) \<Rightarrow> Inr i)"

text \<open>
  Line 127: \<open>"centroid" in col.lower() and "x" in col.lower()\<close>. \<open>lower\<close> maps the ASCII
  capitals to small letters; \<open>in\<close> on strings is containment as a contiguous substring
  (\<open>sublist\<close>).
\<close>

definition lower_char :: "char \<Rightarrow> char" where
  "lower_char c =
     (case map_of (zip ''ABCDEFGHIJKLMNOPQRSTUVWXYZ'' ''abcdefghijklmnopqrstuvwxyz'') c of
        Some l \<Rightarrow> l
      | None \<Rightarrow> c)"

definition lower :: "string \<Rightarrow> string" where
  "lower s = map lower_char s"

definition is_centroid_x :: "string \<Rightarrow> bool" where
  "is_centroid_x col = (sublist ''centroid'' (lower col) \<and> sublist ''x'' (lower col))"

text \<open>
  Lines 126-128: \<open>z_ref\<close> is the first cell of \<open>Height_mm\<close>; \<open>x_col\<close> lists the matching
  column names in column order; \<open>x_ref\<close> is the first cell of the first of them, or \<open>0.0\<close>
  when there is none.
\<close>

definition bottom_reference :: "dataframe \<Rightarrow> py_error + (cell \<times> cell)" where
  "bottom_reference df_ecc =
     (case getitem df_ecc ''Height_mm'' of
        Inl e \<Rightarrow> Inl e
      | Inr heights \<Rightarrow>
          (case iloc0 heights of
             Inl e \<Rightarrow> Inl e
           | Inr z_ref \<Rightarrow>
               (case filter is_centroid_x (columns df_ecc) of
                  [] \<Rightarrow> Inr (z_ref, Num 0)
                | x0 # _ \<Rightarrow>
                    (case getitem df_ecc x0 of
                       Inl e \<Rightarrow> Inl e
                     | Inr xs \<Rightarrow>
                         (case iloc0 xs of
                            Inl e \<Rightarrow> Inl e
                          | Inr x_ref \<Rightarrow> Inr (z_ref, x_ref))))))"

text \<open>
  Lines 129-133. The angle is Python's \<open>None\<close> when the table has no column
  \<open>angle_from_bottom_deg\<close>, hence a \<open>cell option\<close>.
\<close>

record ecc_extremum =
  max_ecc :: cell
  max_ecc_z :: cell
  max_ecc_angle :: "cell option"

definition eccentricity_extremum :: "dataframe \<Rightarrow> py_error + ecc_extremum" where
  "eccentricity_extremum df_ecc =
     (case getitem df_ecc ''eccentricity_mm'' of
        Inl e \<Rightarrow> Inl e
      | Inr ecc \<Rightarrow>
          (case idxmax ecc of
             Inl e \<Rightarrow> Inl e
           | Inr max_ecc_idx \<Rightarrow>
               (case loc df_ecc max_ecc_idx ''Height_mm'' of
                  Inl e \<Rightarrow> Inl e
                | Inr z \<Rightarrow>
                    if ''angle_from_bottom_deg'' \<in> set (columns df_ecc) then
                      (case loc df_ecc max_ecc_idx ''angle_from_bottom_deg'' of
                         Inl e \<Rightarrow> Inl e
                       | Inr a \<Rightarrow>
                           Inr \<lparr>max_ecc = series_max ecc, max_ecc_z = z, max_ecc_angle = Some a\<rparr>)
                    else Inr \<lparr>max_ecc = series_max ecc, max_ecc_z = z, max_ecc_angle = None\<rparr>)))"

text \<open>The tables of the spec's examples.\<close>

definition demo_ecc :: dataframe where
  "demo_ecc = [(''Height_mm'', [Num 0, Num 10, Num 20]),
               (''eccentricity_mm'', [Num 1, Num 5, Num 5])]"

definition demo_ecc_angle :: dataframe where
  "demo_ecc_angle = [(''Height_mm'', [Num 0, Num 10, Num 20]),
                     (''eccentricity_mm'', [Num 1, Num 5, Num 5]),
                     (''angle_from_bottom_deg'', [Num 0, Num 1.5, Num 2.5])]"

definition demo_ref :: dataframe where
  "demo_ref = [(''Height_mm'', [Num 0]), (''Centroid_X'', [Num 3.5])]"

text \<open>
  \<open>first_max s i m\<close>: row \<open>i\<close> of \<open>s\<close> holds the number \<open>m\<close>, no row holds a larger number
  and no earlier row holds \<open>m\<close>. \<open>best_ok\<close> is the invariant of the scan \<open>argmax_from\<close>.
\<close>

definition first_max :: "series \<Rightarrow> nat \<Rightarrow> real \<Rightarrow> bool" where
  "first_max s i m =
     (i < length s \<and> s ! i = Num m \<and> (\<forall>j v. j < length s \<and> s ! j = Num v \<longrightarrow> v \<le> m) \<and>
      (\<forall>j. j < i \<longrightarrow> s ! j \<noteq> Num m))"

definition best_ok :: "series \<Rightarrow> (nat \<times> real) option \<Rightarrow> bool" where
  "best_ok pre best =
     (case best of None \<Rightarrow> present pre = [] | Some (b, bv) \<Rightarrow> first_max pre b bv)"

section \<open>Facts about the locator\<close>

lemma scan_listing_eq:
  "scan_listing d names acc = acc @ map (path_join d) (filter re_match_slice names)"
  by (induction names arbitrary: acc) simp_all

lemma get_all_slice_htmls_Some:
  "fs d = Some names \<Longrightarrow>
   get_all_slice_htmls fs d =
     Inr (sort_key z_key (map (path_join d) (filter re_match_slice names)))"
  by (simp add: get_all_slice_htmls_def listdir_def scan_listing_eq)

lemma get_all_slice_htmls_None:
  "fs d = None \<Longrightarrow> get_all_slice_htmls fs d = Inl FileNotFoundError"
  by (simp add: get_all_slice_htmls_def listdir_def)

lemma demo_fs_result:
  "get_all_slice_htmls demo_fs ''data'' =
     Inr [''data/slice_z=50mm.html'', ''data/slice_z=100mm.html'']"
  by (simp add: get_all_slice_htmls_def listdir_def demo_fs_def re_match_slice_def
      tail_matches_def newline_def path_join_def z_key_def match_key_at_def is_digit_def
      int_of_digits_def digit_val_def)

lemma demo_fs_names:
  "slice_file_names [''data/slice_z=50mm.html'', ''data/slice_z=100mm.html''] =
     [''slice_z=50mm.html'', ''slice_z=100mm.html'']"
  by (simp add: slice_file_names_def basename_def)

lemma tail_matches_iff:
  "tail_matches s \<longleftrightarrow> (\<exists>t. s = ''mm.html'' @ t \<and> (t = [] \<or> t = [newline]))"
  by (auto simp: tail_matches_def)

lemma dotstar_tail_iff:
  "dotstar_tail r \<longleftrightarrow>
     (\<exists>mid t. r = mid @ ''mm.html'' @ t \<and> newline \<notin> set mid \<and> (t = [] \<or> t = [newline]))"
proof (induction r)
  case Nil
  show ?case by (simp add: tail_matches_def)
next
  case (Cons c cs)
  show ?case (is "?L \<longleftrightarrow> ?R")
  proof
    assume ?L
    then consider "tail_matches (c # cs)" | "c \<noteq> newline" "dotstar_tail cs" by auto
    then show ?R
    proof cases
      case 1
      then obtain t where "c # cs = [] @ ''mm.html'' @ t" "t = [] \<or> t = [newline]"
        by (auto simp: tail_matches_iff)
      then show ?thesis by (metis empty_iff list.set(1))
    next
      case 2
      then obtain mid t where "cs = mid @ ''mm.html'' @ t" "newline \<notin> set mid" "t = [] \<or> t = [newline]"
        using Cons.IH by blast
      then have "c # cs = (c # mid) @ ''mm.html'' @ t" "newline \<notin> set (c # mid)"
        using 2 by auto
      then show ?thesis using \<open>t = [] \<or> t = [newline]\<close> by blast
    qed
  next
    assume ?R
    then obtain mid t where h: "c # cs = mid @ ''mm.html'' @ t" "newline \<notin> set mid" "t = [] \<or> t = [newline]"
      by blast
    show ?L
    proof (cases mid)
      case Nil
      then have "tail_matches (c # cs)" using h by (auto simp: tail_matches_def)
      then show ?thesis by simp
    next
      case (Cons m ms)
      then have "c = m" "cs = ms @ ''mm.html'' @ t" "newline \<notin> set ms" "m \<noteq> newline" using h by auto
      then have "dotstar_tail cs" using Cons.IH h(3) by blast
      then show ?thesis using \<open>c = m\<close> \<open>m \<noteq> newline\<close> by simp
    qed
  qed
qed

lemma re_match_slice_iff:
  "re_match_slice fname \<longleftrightarrow>
     (\<exists>mid t. fname = ''slice_z='' @ mid @ ''mm.html'' @ t \<and> newline \<notin> set mid \<and> (t = [] \<or> t = [newline]))"
proof -
  have "prefix ''slice_z='' fname \<longleftrightarrow> (\<exists>r. fname = ''slice_z='' @ r)"
    by (auto simp: prefix_def)
  moreover have "\<And>r. drop 8 (''slice_z='' @ r) = r" by simp
  ultimately show ?thesis
    unfolding re_match_slice_def dotstar_tail_iff by (metis (no_types, lifting))
qed

lemma re_match_slice_no_newline:
  assumes "newline \<notin> set fname"
  shows "re_match_slice fname \<longleftrightarrow> (\<exists>mid. fname = ''slice_z='' @ mid @ ''mm.html'')"
proof
  assume "re_match_slice fname"
  then obtain mid t where h: "fname = ''slice_z='' @ mid @ ''mm.html'' @ t" "t = [] \<or> t = [newline]"
    unfolding re_match_slice_iff by blast
  have "t \<noteq> [newline]" using assms h(1) by auto
  then show "\<exists>mid. fname = ''slice_z='' @ mid @ ''mm.html''" using h by auto
next
  assume "\<exists>mid. fname = ''slice_z='' @ mid @ ''mm.html''"
  then obtain mid where h: "fname = ''slice_z='' @ mid @ ''mm.html''" by blast
  then have "newline \<notin> set mid" using assms by auto
  then have "fname = ''slice_z='' @ mid @ ''mm.html'' @ [] \<and> newline \<notin> set mid \<and> ([] = [] \<or> [] = [newline])"
    using h by simp
  then show "re_match_slice fname" unfolding re_match_slice_iff by blast
qed

lemma not_digit_m: "\<not> is_digit CHR ''m''"
  by (simp add: is_digit_def)

lemma match_key_at_iff:
  "match_key_at s = Some ds \<longleftrightarrow>
     ds \<noteq> [] \<and> list_all is_digit ds \<and> (\<exists>rest. s = ''slice_z='' @ ds @ ''mm'' @ rest)"
proof
  assume a: "match_key_at s = Some ds"
  then have p: "prefix ''slice_z='' s"
    by (auto simp: match_key_at_def split: if_splits)
  then obtain r where r: "s = ''slice_z='' @ r" by (auto simp: prefix_def)
  then have dr: "drop 8 s = r" by simp
  from a p dr have ds: "ds = takeWhile is_digit r" "ds \<noteq> []" "prefix ''mm'' (dropWhile is_digit r)"
    by (auto simp: match_key_at_def Let_def split: if_splits)
  then obtain rest where "dropWhile is_digit r = ''mm'' @ rest" by (auto simp: prefix_def)
  then have "r = ds @ ''mm'' @ rest" using ds(1) by (metis takeWhile_dropWhile_id)
  moreover have "list_all is_digit ds" using ds(1) by (simp add: list_all_iff) (meson set_takeWhileD)
  ultimately show "ds \<noteq> [] \<and> list_all is_digit ds \<and> (\<exists>rest. s = ''slice_z='' @ ds @ ''mm'' @ rest)"
    using ds(2) r by auto
next
  assume "ds \<noteq> [] \<and> list_all is_digit ds \<and> (\<exists>rest. s = ''slice_z='' @ ds @ ''mm'' @ rest)"
  then obtain rest where h: "ds \<noteq> []" "list_all is_digit ds" "s = ''slice_z='' @ ds @ ''mm'' @ rest"
    by blast
  have all: "\<forall>x\<in>set ds. is_digit x" using h(2) by (simp add: list_all_iff)
  have tw: "takeWhile is_digit (ds @ ''mm'' @ rest) = ds"
    using all not_digit_m by (simp add: takeWhile_append2)
  have dw: "dropWhile is_digit (ds @ ''mm'' @ rest) = ''mm'' @ rest"
    using all not_digit_m by (simp add: dropWhile_append2)
  have "drop 8 s = ds @ ''mm'' @ rest" "prefix ''slice_z='' s" using h(3) by simp_all
  then show "match_key_at s = Some ds"
    using tw dw h(1) by (simp add: match_key_at_def Let_def)
qed

lemma re_search_key_sound:
  "re_search_key f = Some ds \<Longrightarrow>
   ds \<noteq> [] \<and> list_all is_digit ds \<and> (\<exists>pre post. f = pre @ ''slice_z='' @ ds @ ''mm'' @ post)"
proof (induction f)
  case Nil
  then show ?case by simp
next
  case (Cons c cs)
  show ?case
  proof (cases "match_key_at (c # cs)")
    case None
    then have "re_search_key cs = Some ds" using Cons.prems by simp
    then obtain pre post where "ds \<noteq> []" "list_all is_digit ds" "cs = pre @ ''slice_z='' @ ds @ ''mm'' @ post"
      using Cons.IH by blast
    then have "c # cs = (c # pre) @ ''slice_z='' @ ds @ ''mm'' @ post" by simp
    then show ?thesis using \<open>ds \<noteq> []\<close> \<open>list_all is_digit ds\<close> by blast
  next
    case (Some e)
    then have "e = ds" using Cons.prems by simp
    then obtain rest where "ds \<noteq> []" "list_all is_digit ds" "c # cs = [] @ ''slice_z='' @ ds @ ''mm'' @ rest"
      using Some match_key_at_iff by auto
    then show ?thesis by blast
  qed
qed

lemma re_search_key_complete:
  assumes "ds \<noteq> []" "list_all is_digit ds"
  shows "re_search_key (pre @ ''slice_z='' @ ds @ ''mm'' @ post) \<noteq> None"
proof (induction pre)
  case Nil
  have "match_key_at (''slice_z='' @ ds @ ''mm'' @ post) = Some ds"
    using assms match_key_at_iff by blast
  then show ?case by simp
next
  case (Cons c pre)
  then show ?case by (cases "match_key_at (c # pre @ ''slice_z='' @ ds @ ''mm'' @ post)") auto
qed

lemma re_search_key_None_iff:
  "re_search_key f = None \<longleftrightarrow>
     \<not> (\<exists>pre ds post. f = pre @ ''slice_z='' @ ds @ ''mm'' @ post \<and> ds \<noteq> [] \<and> list_all is_digit ds)"
proof
  assume "re_search_key f = None"
  then show "\<not> (\<exists>pre ds post. f = pre @ ''slice_z='' @ ds @ ''mm'' @ post \<and> ds \<noteq> [] \<and> list_all is_digit ds)"
    using re_search_key_complete by blast
next
  assume n: "\<not> (\<exists>pre ds post. f = pre @ ''slice_z='' @ ds @ ''mm'' @ post \<and> ds \<noteq> [] \<and> list_all is_digit ds)"
  show "re_search_key f = None"
  proof (cases "re_search_key f")
    case None then show ?thesis .
  next
    case (Some ds)
    then show ?thesis using re_search_key_sound n by blast
  qed
qed

lemma digit_val_nonneg: "is_digit c \<Longrightarrow> 0 \<le> digit_val c"
  by (auto simp: is_digit_def digit_val_def)

lemma int_of_digits_nonneg_aux:
  "list_all is_digit ds \<Longrightarrow> 0 \<le> n \<Longrightarrow> 0 \<le> foldl (\<lambda>n c. 10 * n + digit_val c) n ds"
  by (induction ds arbitrary: n) (auto simp: digit_val_nonneg)

lemma z_key_nonneg: "0 \<le> z_key f"
proof (cases "re_search_key f")
  case None
  then show ?thesis by (simp add: z_key_def)
next
  case (Some ds)
  then have "list_all is_digit ds" using re_search_key_sound by blast
  then show ?thesis using Some by (simp add: z_key_def int_of_digits_def int_of_digits_nonneg_aux)
qed

lemmas locator_eval =
  get_all_slice_htmls_def listdir_def re_match_slice_def
  tail_matches_def newline_def path_join_def z_key_def match_key_at_def is_digit_def
  int_of_digits_def digit_val_def

lemma re_match_slice_not_abs: "re_match_slice g \<Longrightarrow> \<not> prefix ''/'' g"
  by (auto simp: re_match_slice_def prefix_def)

lemma no_slash_not_abs: "CHR ''/'' \<notin> set f \<Longrightarrow> \<not> prefix ''/'' f"
  by (auto simp: prefix_def)

lemma path_join_inj:
  "\<not> prefix ''/'' f \<Longrightarrow> \<not> prefix ''/'' g \<Longrightarrow> path_join d f = path_join d g \<Longrightarrow> f = g"
  by (simp add: path_join_def split: if_splits)

lemma path_join_mem_iff:
  assumes "CHR ''/'' \<notin> set fname"
  shows "path_join d fname \<in> set (map (path_join d) (filter re_match_slice names)) \<longleftrightarrow>
         fname \<in> set names \<and> re_match_slice fname"
proof
  assume "path_join d fname \<in> set (map (path_join d) (filter re_match_slice names))"
  then obtain g where g: "g \<in> set names" "re_match_slice g" "path_join d fname = path_join d g"
    by auto
  then have "fname = g"
    using path_join_inj re_match_slice_not_abs no_slash_not_abs assms by blast
  then show "fname \<in> set names \<and> re_match_slice fname" using g by simp
next
  assume "fname \<in> set names \<and> re_match_slice fname"
  then show "path_join d fname \<in> set (map (path_join d) (filter re_match_slice names))" by auto
qed

text \<open>
  Claim C1, as the code has it. The locator never fails on an existing directory, whatever
  names it holds. A name without newline and without \<open>/\<close> is returned (joined to the
  directory path) if and only if it is in the directory, starts with \<open>slice_z=\<close> and ends
  with \<open>mm.html\<close>; digits between the two are not required, and the extension is exactly
  \<open>.html\<close>. For the directory \<open>data\<close> holding \<open>slice_z=100mm.html\<close>, \<open>readme.txt\<close>,
  \<open>slice_z=50mm.html\<close> the result is the two joined paths, key 50 first, and their base
  names (line 44) are \<open>slice_z=50mm.html\<close>, \<open>slice_z=100mm.html\<close>.
\<close>

theorem locator_membership:
  assumes "fs d = Some names" and "newline \<notin> set fname" and "CHR ''/'' \<notin> set fname"
  shows "(\<exists>out. get_all_slice_htmls fs d = Inr out \<and>
            (path_join d fname \<in> set out \<longleftrightarrow>
               fname \<in> set names \<and> (\<exists>mid. fname = ''slice_z='' @ mid @ ''mm.html''))) \<and>
         get_all_slice_htmls demo_fs ''data'' =
           Inr [''data/slice_z=50mm.html'', ''data/slice_z=100mm.html''] \<and>
         slice_file_names [''data/slice_z=50mm.html'', ''data/slice_z=100mm.html''] =
           [''slice_z=50mm.html'', ''slice_z=100mm.html'']"
proof -
  let ?out = "sort_key z_key (map (path_join d) (filter re_match_slice names))"
  have "get_all_slice_htmls fs d = Inr ?out"
    using assms(1) by (rule get_all_slice_htmls_Some)
  moreover have "path_join d fname \<in> set ?out \<longleftrightarrow>
      fname \<in> set names \<and> (\<exists>mid. fname = ''slice_z='' @ mid @ ''mm.html'')"
    using path_join_mem_iff [OF assms(3)] re_match_slice_no_newline [OF assms(2)] by simp
  ultimately show ?thesis using demo_fs_result demo_fs_names by blast
qed

theorem locator_membership_witness:
  "demo_fs ''data'' = Some [''slice_z=100mm.html'', ''readme.txt'', ''slice_z=50mm.html''] \<and>
   newline \<notin> set ''slice_z=50mm.html'' \<and> CHR ''/'' \<notin> set ''slice_z=50mm.html'' \<and>
   (\<exists>out. get_all_slice_htmls demo_fs ''data'' = Inr out \<and>
      path_join ''data'' ''slice_z=50mm.html'' \<in> set out)"
proof -
  have a: "demo_fs ''data'' = Some [''slice_z=100mm.html'', ''readme.txt'', ''slice_z=50mm.html'']"
    by (simp add: demo_fs_def)
  have b: "newline \<notin> set ''slice_z=50mm.html''" by (simp add: newline_def)
  have c: "CHR ''/'' \<notin> set ''slice_z=50mm.html''" by simp
  have "''slice_z=50mm.html'' = ''slice_z='' @ ''50'' @ ''mm.html''" by simp
  then have d: "\<exists>mid. ''slice_z=50mm.html'' = ''slice_z='' @ mid @ ''mm.html''" by blast
  show ?thesis
    using locator_membership [of demo_fs "''data''" _ "''slice_z=50mm.html''", OF a b c] a b c d
    by auto
qed

text \<open>
  Against claim C1 as stated (a name is returned if and only if it matches
  \<open>slice_z=<digits>mm.<ext>\<close>): \<open>slice_z=abcmm.html\<close> has no digit and is returned;
  \<open>slice_z=50mm.svg\<close> matches the stated pattern and is left out.
\<close>

theorem locator_digits_not_required:
  "get_all_slice_htmls nodigit_fs ''data'' = Inr [''data/slice_z=abcmm.html''] \<and>
   \<not> spec_slice_pattern ''slice_z=abcmm.html'' \<and> spec_slice_pattern ''slice_z=50mm.svg''"
  by (simp add: locator_eval nodigit_fs_def spec_slice_pattern_def)

lemma sorted_key_precedes:
  assumes "sorted (map f xs)" "i < length xs" "j < length xs" "f (xs ! i) < f (xs ! j)"
  shows "i < j"
proof (rule ccontr)
  assume "\<not> i < j"
  then have "j \<le> i" by simp
  then have "map f xs ! j \<le> map f xs ! i"
    using assms(1,2) sorted_nth_mono [of "map f xs" j i] by simp
  then show False using assms(2,3,4) by simp
qed

lemma digits_no_slash: "list_all is_digit ds \<Longrightarrow> CHR ''/'' \<notin> set ds"
  by (auto simp: list_all_iff is_digit_def)

lemma key_literal_no_slash:
  "list_all is_digit ds \<Longrightarrow> CHR ''/'' \<notin> set (''slice_z='' @ ds @ ''mm'')"
  using digits_no_slash [of ds] by simp

lemma match_prefix_append_slash:
  assumes "p \<noteq> []" "last p = CHR ''/''" "CHR ''/'' \<notin> set k"
  shows "(\<exists>rest. p @ f = k @ rest) \<longleftrightarrow> (\<exists>rest. p = k @ rest)"
proof
  assume "\<exists>rest. p @ f = k @ rest"
  then obtain rest where r: "p @ f = k @ rest" by blast
  then have "\<exists>us. (p = k @ us \<and> us @ f = rest) \<or> (p @ us = k \<and> f = us @ rest)"
    by (simp only: append_eq_append_conv2)
  then obtain us where "(p = k @ us \<and> us @ f = rest) \<or> (p @ us = k \<and> f = us @ rest)" ..
  then show "\<exists>rest. p = k @ rest"
  proof
    assume "p = k @ us \<and> us @ f = rest"
    then show ?thesis by blast
  next
    assume a: "p @ us = k \<and> f = us @ rest"
    have "last p \<in> set p" using assms(1) by simp
    then have "CHR ''/'' \<in> set (p @ us)" using assms(2) by simp
    then have False using a assms(3) by simp
    then show ?thesis ..
  qed
next
  assume "\<exists>rest. p = k @ rest"
  then obtain rest where "p = k @ rest" by blast
  then have "p @ f = k @ (rest @ f)" by simp
  then show "\<exists>rest. p @ f = k @ rest" by blast
qed

lemma match_key_at_iff2:
  "match_key_at s = Some ds \<longleftrightarrow>
     ds \<noteq> [] \<and> list_all is_digit ds \<and> (\<exists>rest. s = (''slice_z='' @ ds @ ''mm'') @ rest)"
  unfolding match_key_at_iff by simp

lemma match_key_at_append_slash:
  assumes "p \<noteq> []" "last p = CHR ''/''"
  shows "match_key_at (p @ f) = match_key_at p"
proof -
  have eq: "match_key_at (p @ f) = Some ds \<longleftrightarrow> match_key_at p = Some ds" for ds
  proof (cases "list_all is_digit ds")
    case True
    have "(\<exists>rest. p @ f = (''slice_z='' @ ds @ ''mm'') @ rest) \<longleftrightarrow>
          (\<exists>rest. p = (''slice_z='' @ ds @ ''mm'') @ rest)"
      using assms key_literal_no_slash [OF True] by (rule match_prefix_append_slash)
    then show ?thesis unfolding match_key_at_iff2 by (simp only:)
  next
    case False
    then show ?thesis unfolding match_key_at_iff2 by blast
  qed
  show ?thesis
  proof (cases "match_key_at p")
    case None
    have "match_key_at (p @ f) = None"
    proof (cases "match_key_at (p @ f)")
      case None then show ?thesis .
    next
      case (Some ds)
      then have "match_key_at p = Some ds" using eq by blast
      then show ?thesis using None by simp
    qed
    then show ?thesis using None by simp
  next
    case (Some ds)
    then have "match_key_at (p @ f) = Some ds" using eq by blast
    then show ?thesis using Some by simp
  qed
qed

lemma re_search_key_append_slash:
  assumes "p = [] \<or> last p = CHR ''/''" "re_search_key p = None"
  shows "re_search_key (p @ f) = re_search_key f"
  using assms
proof (induction p)
  case Nil
  then show ?case by simp
next
  case (Cons c cs)
  have l: "last (c # cs) = CHR ''/''" using Cons.prems(1) by simp
  have m: "match_key_at (c # cs) = None"
    using Cons.prems(2) by (cases "match_key_at (c # cs)") simp_all
  then have r: "re_search_key cs = None" using Cons.prems(2) by simp
  have "match_key_at ((c # cs) @ f) = match_key_at (c # cs)"
    using match_key_at_append_slash [of "c # cs" f, OF _ l] by blast
  then have m': "match_key_at (c # cs @ f) = None" using m by simp
  have "re_search_key (cs @ f) = re_search_key f"
  proof (cases cs)
    case Nil
    then show ?thesis by simp
  next
    case (Cons a as)
    then have "last cs = CHR ''/''" using l by simp
    then show ?thesis using Cons.IH r by blast
  qed
  then show ?case using m' by simp
qed

lemma re_search_key_snoc_slash:
  assumes "re_search_key d = None"
  shows "re_search_key (d @ ''/'') = None"
proof (rule ccontr)
  assume "re_search_key (d @ ''/'') \<noteq> None"
  then have "\<exists>pre ds post. d @ ''/'' = pre @ ''slice_z='' @ ds @ ''mm'' @ post \<and>
      ds \<noteq> [] \<and> list_all is_digit ds"
    by (simp only: re_search_key_None_iff not_not)
  then obtain pre ds post where h: "d @ ''/'' = pre @ ''slice_z='' @ ds @ ''mm'' @ post"
    "ds \<noteq> []" "list_all is_digit ds"
    by blast
  have "post \<noteq> []"
  proof
    assume "post = []"
    then have "d @ ''/'' = (pre @ ''slice_z='' @ ds @ ''m'') @ ''m''" using h(1) by simp
    then have "CHR ''/'' = CHR ''m''" by (simp only: append1_eq_conv)
    then show False by simp
  qed
  then obtain post' x where p: "post = post' @ [x]" by (metis rev_exhaust)
  then have "d @ ''/'' = (pre @ ''slice_z='' @ ds @ ''mm'' @ post') @ [x]" using h(1) by simp
  then have "d = pre @ ''slice_z='' @ ds @ ''mm'' @ post'" by (simp only: append1_eq_conv)
  then show False using assms h(2,3) re_search_key_None_iff [of d] by blast
qed

lemma z_key_path_join:
  assumes "re_search_key d = None" "\<not> prefix ''/'' f"
  shows "z_key (path_join d f) = z_key f"
proof (cases "d = [] \<or> last d = CHR ''/''")
  case True
  then have "path_join d f = d @ f" using assms(2) by (simp add: path_join_def)
  then show ?thesis using re_search_key_append_slash [OF True assms(1)] by (simp add: z_key_def)
next
  case False
  then have "path_join d f = (d @ ''/'') @ f" using assms(2) by (simp add: path_join_def)
  moreover have "re_search_key ((d @ ''/'') @ f) = re_search_key f"
    by (rule re_search_key_append_slash) (simp_all add: re_search_key_snoc_slash [OF assms(1)])
  ultimately show ?thesis by (simp add: z_key_def)
qed

lemma z_key_data_dir: "\<not> prefix ''/'' f \<Longrightarrow> z_key (path_join ''data'' f) = z_key f"
  by (rule z_key_path_join) (simp_all add: match_key_at_def)

lemma insort_key_map:
  "insort_key f (g x) (map g ys) = map g (insort_key (\<lambda>x. f (g x)) x ys)"
  by (induction ys) simp_all

lemma sort_key_map:
  "sort_key f (map g xs) = map g (sort_key (\<lambda>x. f (g x)) xs)"
  by (induction xs) (simp_all add: insort_key_map)

lemma insort_key_agree:
  "f x = h x \<Longrightarrow> (\<And>y. y \<in> set ys \<Longrightarrow> f y = h y) \<Longrightarrow> insort_key f x ys = insort_key h x ys"
  by (induction ys) simp_all

lemma sort_key_agree:
  "(\<And>x. x \<in> set xs \<Longrightarrow> f x = h x) \<Longrightarrow> sort_key f xs = sort_key h xs"
proof (induction xs)
  case Nil
  then show ?case by simp
next
  case (Cons x xs)
  have "sort_key f xs = sort_key h xs" using Cons by simp
  moreover have "insort_key f x (sort_key h xs) = insort_key h x (sort_key h xs)"
    using Cons.prems by (intro insort_key_agree) simp_all
  ultimately show ?case by simp
qed

lemma sorted_names_of_paths:
  assumes "re_search_key d = None"
  shows "sort_key z_key (map (path_join d) (filter re_match_slice names)) =
         map (path_join d) (sort_key z_key (filter re_match_slice names))"
proof -
  have "z_key (path_join d f) = z_key f" if "f \<in> set (filter re_match_slice names)" for f
    using that assms re_match_slice_not_abs z_key_path_join by simp
  then have "sort_key (\<lambda>x. z_key (path_join d x)) (filter re_match_slice names) =
             sort_key z_key (filter re_match_slice names)"
    by (rule sort_key_agree)
  then show ?thesis by (simp add: sort_key_map)
qed

text \<open>
  What line 33 does guarantee: the result is sorted by the key \<open>z_key\<close> reads from each
  returned entry, which is the file name joined to the directory path. When the directory
  path itself holds no \<open>slice_z=<digits>mm\<close> (as the program's \<open>data\<close>), the entries are the
  joined paths of a list of file names sorted by the keys of the file names.
\<close>

lemma locator_sorted_by_path_key:
  assumes "fs d = Some names"
  shows "\<exists>out. get_all_slice_htmls fs d = Inr out \<and> sorted (map z_key out) \<and>
           (\<forall>i j. i < length out \<and> j < length out \<and> z_key (out ! i) < z_key (out ! j) \<longrightarrow> i < j) \<and>
           (re_search_key d = None \<longrightarrow>
              (\<exists>fnames. out = map (path_join d) fnames \<and> set fnames \<subseteq> set names \<and>
                 sorted (map z_key fnames)))"
proof -
  let ?ms = "filter re_match_slice names"
  let ?out = "sort_key z_key (map (path_join d) ?ms)"
  have a: "get_all_slice_htmls fs d = Inr ?out"
    using assms by (rule get_all_slice_htmls_Some)
  have s: "sorted (map z_key ?out)" by (rule sorted_sort_key)
  have b: "\<forall>i j. i < length ?out \<and> j < length ?out \<and> z_key (?out ! i) < z_key (?out ! j) \<longrightarrow> i < j"
    using sorted_key_precedes [OF s] by blast
  have c: "re_search_key d = None \<longrightarrow>
       (\<exists>fnames. ?out = map (path_join d) fnames \<and> set fnames \<subseteq> set names \<and>
          sorted (map z_key fnames))"
  proof
    assume n: "re_search_key d = None"
    have "?out = map (path_join d) (sort_key z_key ?ms) \<and> set (sort_key z_key ?ms) \<subseteq> set names \<and>
        sorted (map z_key (sort_key z_key ?ms))"
      using sorted_names_of_paths [OF n, of names] sorted_sort_key [of z_key ?ms] by auto
    then show "\<exists>fnames. ?out = map (path_join d) fnames \<and> set fnames \<subseteq> set names \<and>
          sorted (map z_key fnames)" by (rule exI)
  qed
  from a s b c show ?thesis by (intro exI [of _ ?out] conjI)
qed

lemma locator_sorted_by_path_key_demo:
  "demo_fs ''data'' = Some [''slice_z=100mm.html'', ''readme.txt'', ''slice_z=50mm.html''] \<and>
   re_search_key ''data'' = None \<and>
   sorted (map z_key [''data/slice_z=50mm.html'', ''data/slice_z=100mm.html'']) \<and>
   z_key ''data/slice_z=50mm.html'' = 50 \<and> z_key ''data/slice_z=100mm.html'' = 100 \<and>
   (\<exists>fnames. [''data/slice_z=50mm.html'', ''data/slice_z=100mm.html''] =
        map (path_join ''data'') fnames \<and> sorted (map z_key fnames))"
proof -
  have a: "demo_fs ''data'' = Some [''slice_z=100mm.html'', ''readme.txt'', ''slice_z=50mm.html'']"
    by (simp add: demo_fs_def)
  have n: "re_search_key ''data'' = None" by (simp add: match_key_at_def)
  from locator_sorted_by_path_key [of demo_fs "''data''", OF a]
  obtain out where o: "get_all_slice_htmls demo_fs ''data'' = Inr out \<and> sorted (map z_key out) \<and>
           (\<forall>i j. i < length out \<and> j < length out \<and> z_key (out ! i) < z_key (out ! j) \<longrightarrow> i < j) \<and>
           (re_search_key ''data'' = None \<longrightarrow>
              (\<exists>fnames. out = map (path_join ''data'') fnames \<and>
                 set fnames \<subseteq> set [''slice_z=100mm.html'', ''readme.txt'', ''slice_z=50mm.html''] \<and>
                 sorted (map z_key fnames)))" ..
  have o1: "get_all_slice_htmls demo_fs ''data'' = Inr out" using o by (elim conjE)
  have o2: "sorted (map z_key out)" using o by (elim conjE)
  have o3: "re_search_key ''data'' = None \<longrightarrow>
              (\<exists>fnames. out = map (path_join ''data'') fnames \<and>
                 set fnames \<subseteq> set [''slice_z=100mm.html'', ''readme.txt'', ''slice_z=50mm.html''] \<and>
                 sorted (map z_key fnames))" using o by (elim conjE)
  have e: "out = [''data/slice_z=50mm.html'', ''data/slice_z=100mm.html'']"
    using o1 demo_fs_result by simp
  obtain fnames where f: "out = map (path_join ''data'') fnames" "sorted (map z_key fnames)"
    using o3 n by (elim impE exE conjE)
  have f': "\<exists>fnames. [''data/slice_z=50mm.html'', ''data/slice_z=100mm.html''] =
        map (path_join ''data'') fnames \<and> sorted (map z_key fnames)"
    using f unfolding e by (intro exI [of _ fnames] conjI)
  have s: "sorted (map z_key [''data/slice_z=50mm.html'', ''data/slice_z=100mm.html''])"
    using o2 unfolding e .
  have k1: "z_key ''data/slice_z=50mm.html'' = 50" by (simp add: locator_eval)
  have k2: "z_key ''data/slice_z=100mm.html'' = 100" by (simp add: locator_eval)
  from a n s k1 k2 f' show ?thesis by (intro conjI)
qed

text \<open>
  Claim C2 (for every directory the result is sorted by the key of each file name) fails when
  the directory path itself holds the key pattern. \<open>z_key\<close> searches the joined path from the
  left, so in the directory \<open>slice_z=9mm\<close> every entry gets the key 9 of the directory and the
  stable sort keeps the enumeration order: the file of height 20 is returned before the file
  of height 5, and the names shown for selection (line 44) are not sorted by their keys.
\<close>

theorem locator_keys_directory_path:
  "get_all_slice_htmls keydir_fs ''slice_z=9mm'' =
     Inr [''slice_z=9mm/slice_z=20mm.html'', ''slice_z=9mm/slice_z=5mm.html''] \<and>
   z_key ''slice_z=9mm/slice_z=20mm.html'' = 9 \<and> z_key ''slice_z=9mm/slice_z=5mm.html'' = 9 \<and>
   slice_file_names [''slice_z=9mm/slice_z=20mm.html'', ''slice_z=9mm/slice_z=5mm.html''] =
     [''slice_z=20mm.html'', ''slice_z=5mm.html''] \<and>
   z_key ''slice_z=20mm.html'' = 20 \<and> z_key ''slice_z=5mm.html'' = 5 \<and>
   \<not> sorted (map z_key [''slice_z=20mm.html'', ''slice_z=5mm.html''])"
  by (simp add: locator_eval keydir_fs_def slice_file_names_def basename_def)

text \<open>
  Claim C4. A path in which no non-empty digit run stands between \<open>slice_z=\<close> and \<open>mm\<close>
  gets key 0; \<open>z_key\<close> is total, so nothing is raised. Such an entry stays in the sorted
  result and stands before every entry with a positive key.
\<close>

theorem z_key_fallback_zero:
  assumes "\<not> (\<exists>pre ds post. f = pre @ ''slice_z='' @ ds @ ''mm'' @ post \<and> ds \<noteq> [] \<and> list_all is_digit ds)"
  shows "z_key f = 0 \<and>
         (\<forall>fs d names. fs d = Some names \<and> f \<in> set (scan_listing d names []) \<longrightarrow>
            (\<exists>out. get_all_slice_htmls fs d = Inr out \<and> f \<in> set out \<and>
               (\<forall>i j. i < length out \<and> j < length out \<and> out ! i = f \<and> 0 < z_key (out ! j)
                  \<longrightarrow> i < j)))"
proof -
  have "re_search_key f = None" using assms re_search_key_None_iff by blast
  then have z: "z_key f = 0" by (simp add: z_key_def)
  have "\<exists>out. get_all_slice_htmls fs d = Inr out \<and> f \<in> set out \<and>
               (\<forall>i j. i < length out \<and> j < length out \<and> out ! i = f \<and> 0 < z_key (out ! j)
                  \<longrightarrow> i < j)"
    if h: "fs d = Some names" "f \<in> set (scan_listing d names [])" for fs :: filesystem and d names
  proof -
    let ?out = "sort_key z_key (scan_listing d names [])"
    have "get_all_slice_htmls fs d = Inr ?out"
      using h(1) by (simp add: get_all_slice_htmls_def listdir_def)
    moreover have "f \<in> set ?out" using h(2) by simp
    moreover have s: "sorted (map z_key ?out)" by (rule sorted_sort_key)
    have "\<forall>i j. i < length ?out \<and> j < length ?out \<and> ?out ! i = f \<and> 0 < z_key (?out ! j) \<longrightarrow> i < j"
      using sorted_key_precedes [OF s] z by metis
    ultimately show ?thesis by blast
  qed
  then show ?thesis using z by blast
qed

lemma nodigit_fs_result:
  "get_all_slice_htmls nodigit_fs ''data'' = Inr [''data/slice_z=abcmm.html'']"
  by (simp add: locator_eval nodigit_fs_def)

lemma tie_fs_result:
  "get_all_slice_htmls tie_fs ''data'' =
     Inr [''data/slice_z=bmm.html'', ''data/slice_z=amm.html'', ''data/slice_z=7mm.html'']"
  by (simp add: locator_eval tie_fs_def)

theorem z_key_fallback_zero_witness:
  "re_search_key ''data/slice_z=bmm.html'' = None \<and> z_key ''data/slice_z=bmm.html'' = 0 \<and>
   get_all_slice_htmls tie_fs ''data'' =
     Inr [''data/slice_z=bmm.html'', ''data/slice_z=amm.html'', ''data/slice_z=7mm.html''] \<and>
   z_key ''data/slice_z=7mm.html'' = 7"
proof -
  have n: "re_search_key ''data/slice_z=bmm.html'' = None"
    by (simp add: match_key_at_def is_digit_def)
  then have "\<not> (\<exists>pre ds post. ''data/slice_z=bmm.html'' = pre @ ''slice_z='' @ ds @ ''mm'' @ post \<and>
      ds \<noteq> [] \<and> list_all is_digit ds)"
    using re_search_key_None_iff by blast
  then have "z_key ''data/slice_z=bmm.html'' = 0"
    using z_key_fallback_zero [of "''data/slice_z=bmm.html''"] by blast
  moreover have "z_key ''data/slice_z=7mm.html'' = 7" by (simp add: locator_eval)
  ultimately show ?thesis using n tie_fs_result by simp
qed

text \<open>
  Claim C9 (every returned entry ends in \<open>.html\<close>) fails on a name that ends with a newline:
  Python's \<open>$\<close> also matches just before a final newline, so \<open>slice_z=5mm.html\<close> followed
  by a newline passes the filter of line 28, and neither the returned path nor its base name
  ends in \<open>.html\<close>.
\<close>

theorem trailing_newline_accepted:
  "get_all_slice_htmls newline_fs ''data'' = Inr [''data/slice_z=5mm.html'' @ [newline]] \<and>
   \<not> suffix ''.html'' (''data/slice_z=5mm.html'' @ [newline]) \<and>
   basename (''data/slice_z=5mm.html'' @ [newline]) = ''slice_z=5mm.html'' @ [newline]"
  by (simp add: locator_eval newline_fs_def suffix_to_prefix basename_def)

lemma path_join_suffix: "\<not> prefix ''/'' b \<Longrightarrow> suffix b (path_join a b)"
  by (simp add: path_join_def suffix_def)

lemma match_ends_html:
  assumes "re_match_slice fname" "newline \<notin> set fname"
  shows "suffix ''.html'' fname \<and> suffix ''.html'' (path_join d fname)"
proof -
  obtain mid where m: "fname = ''slice_z='' @ mid @ ''mm.html''"
    using assms re_match_slice_no_newline by blast
  then have "fname = (''slice_z='' @ mid @ ''mm'') @ ''.html''" by simp
  then have s: "suffix ''.html'' fname" unfolding suffix_def by blast
  have "suffix fname (path_join d fname)"
    using assms(1) re_match_slice_not_abs path_join_suffix by blast
  then show ?thesis using s suffix_order.trans by blast
qed

lemma other_extension_excluded:
  "\<not> re_match_slice ''slice_z=50mm.svg'' \<and> \<not> re_match_slice ''slice_z=50mm.htm''"
  by (simp add: re_match_slice_def tail_matches_def newline_def)

lemma entries_end_html:
  assumes "fs d = Some names" "\<forall>n\<in>set names. newline \<notin> set n"
  shows "\<exists>out. get_all_slice_htmls fs d = Inr out \<and> (\<forall>p\<in>set out. suffix ''.html'' p)"
proof -
  let ?out = "sort_key z_key (map (path_join d) (filter re_match_slice names))"
  have "get_all_slice_htmls fs d = Inr ?out"
    using assms(1) by (rule get_all_slice_htmls_Some)
  moreover have "\<forall>p\<in>set ?out. suffix ''.html'' p"
    using assms(2) match_ends_html by auto
  ultimately show ?thesis by blast
qed

text \<open>
  Claim C10. For every key \<open>k\<close>, the entries with key \<open>k\<close> stand in the result in the order
  in which the loop of lines 27-29 met them in the directory enumeration; and the result is
  the only list with the same entries that is sorted by key and keeps that order within each
  key.
\<close>

theorem locator_sort_stable:
  assumes "fs d = Some names"
  shows "\<exists>out. get_all_slice_htmls fs d = Inr out \<and>
           (\<forall>k. filter (\<lambda>p. z_key p = k) out = filter (\<lambda>p. z_key p = k) (scan_listing d names [])) \<and>
           (\<forall>ys. mset ys = mset (scan_listing d names []) \<and> sorted (map z_key ys) \<and>
                 (\<forall>k. filter (\<lambda>p. z_key p = k) ys = filter (\<lambda>p. z_key p = k) (scan_listing d names []))
              \<longrightarrow> ys = out)"
proof -
  let ?xs = "scan_listing d names []"
  let ?out = "sort_key z_key ?xs"
  have r: "get_all_slice_htmls fs d = Inr ?out"
    using assms by (simp add: get_all_slice_htmls_def listdir_def)
  have st: "\<forall>k. filter (\<lambda>p. z_key p = k) ?out = filter (\<lambda>p. z_key p = k) ?xs"
    by (simp add: sort_key_stable)
  have un: "ys = ?out"
    if h: "mset ys = mset ?xs" "sorted (map z_key ys)"
      "\<forall>k. filter (\<lambda>p. z_key p = k) ys = filter (\<lambda>p. z_key p = k) ?xs" for ys
  proof -
    have "filter (\<lambda>x. z_key k = z_key x) ys = filter (\<lambda>x. z_key k = z_key x) ?xs" for k
    proof -
      have "(\<lambda>x. z_key k = z_key x) = (\<lambda>p. z_key p = z_key k)" by auto
      then show ?thesis using h(3) by simp
    qed
    then have "sort_key z_key ?xs = ys"
      using h(1,2) by (intro properties_for_sort_key) auto
    then show ?thesis by simp
  qed
  show ?thesis using r st un by blast
qed

theorem locator_sort_stable_witness:
  "tie_fs ''data'' = Some [''slice_z=7mm.html'', ''slice_z=bmm.html'', ''slice_z=amm.html''] \<and>
   (\<exists>out. get_all_slice_htmls tie_fs ''data'' = Inr out \<and>
      filter (\<lambda>p. z_key p = 0) out = [''data/slice_z=bmm.html'', ''data/slice_z=amm.html''])"
proof -
  have a: "tie_fs ''data'' = Some [''slice_z=7mm.html'', ''slice_z=bmm.html'', ''slice_z=amm.html'']"
    by (simp add: tie_fs_def)
  obtain out where o: "get_all_slice_htmls tie_fs ''data'' = Inr out"
    "\<forall>k. filter (\<lambda>p. z_key p = k) out =
       filter (\<lambda>p. z_key p = k)
         (scan_listing ''data'' [''slice_z=7mm.html'', ''slice_z=bmm.html'', ''slice_z=amm.html''] [])"
    using locator_sort_stable [of tie_fs "''data''", OF a] by blast
  have "filter (\<lambda>p. z_key p = 0)
         (scan_listing ''data'' [''slice_z=7mm.html'', ''slice_z=bmm.html'', ''slice_z=amm.html''] [])
        = [''data/slice_z=bmm.html'', ''data/slice_z=amm.html'']"
    by (simp add: locator_eval)
  then have "filter (\<lambda>p. z_key p = 0) out = [''data/slice_z=bmm.html'', ''data/slice_z=amm.html'']"
    using o(2) by simp
  then show ?thesis using a o(1) by blast
qed

section \<open>Facts about the tables\<close>

lemmas table_eval = getitem_def iloc0_def loc_def series_max_def idxmax_def columns_def

lemma present_append: "present (xs @ ys) = present xs @ present ys"
  by (induction xs rule: present.induct) simp_all

lemma set_present: "v \<in> set (present s) \<longleftrightarrow> Num v \<in> set s"
  by (induction s rule: present.induct) auto

lemma present_Nil_iff: "present s = [] \<longleftrightarrow> (\<forall>v. Num v \<notin> set s)"
  using set_present [of _ s] by (metis all_not_in_conv set_empty)

lemma first_maxD1: "first_max s i m \<Longrightarrow> i < length s"
  unfolding first_max_def by blast

lemma first_maxD2: "first_max s i m \<Longrightarrow> s ! i = Num m"
  unfolding first_max_def by blast

lemma first_maxD3: "first_max s i m \<Longrightarrow> j < length s \<Longrightarrow> s ! j = Num v \<Longrightarrow> v \<le> m"
  unfolding first_max_def by blast

lemma first_maxD4: "first_max s i m \<Longrightarrow> j < i \<Longrightarrow> s ! j \<noteq> Num m"
  unfolding first_max_def by blast

lemma first_maxI:
  assumes "i < length s" "s ! i = Num m"
    and "\<And>j v. j < length s \<Longrightarrow> s ! j = Num v \<Longrightarrow> v \<le> m"
    and "\<And>j. j < i \<Longrightarrow> s ! j \<noteq> Num m"
  shows "first_max s i m"
  unfolding first_max_def using assms by blast

lemma snoc_nth_cases:
  assumes "j < length (pre @ [c])" "(pre @ [c]) ! j = Num v"
  shows "(j < length pre \<and> pre ! j = Num v) \<or> (j = length pre \<and> c = Num v)"
proof (cases "j < length pre")
  case True
  then show ?thesis using assms(2) by (simp add: nth_append)
next
  case False
  then have "j = length pre" using assms(1) by simp
  then show ?thesis using assms(2) by simp
qed

lemma first_max_snoc_NaN:
  assumes "first_max pre b bv"
  shows "first_max (pre @ [NaN]) b bv"
proof (rule first_maxI)
  have b: "b < length pre" using assms by (rule first_maxD1)
  show "b < length (pre @ [NaN])" using b by simp
  show "(pre @ [NaN]) ! b = Num bv" using b first_maxD2 [OF assms] by (simp add: nth_append)
  show "v \<le> bv" if "j < length (pre @ [NaN])" "(pre @ [NaN]) ! j = Num v" for j v
    using snoc_nth_cases [OF that] first_maxD3 [OF assms] by blast
  show "(pre @ [NaN]) ! j \<noteq> Num bv" if "j < b" for j
    using that b first_maxD4 [OF assms that] by (simp add: nth_append)
qed

lemma first_max_snoc_le:
  assumes "first_max pre b bv" "v \<le> bv"
  shows "first_max (pre @ [Num v]) b bv"
proof (rule first_maxI)
  have b: "b < length pre" using assms(1) by (rule first_maxD1)
  show "b < length (pre @ [Num v])" using b by simp
  show "(pre @ [Num v]) ! b = Num bv" using b first_maxD2 [OF assms(1)] by (simp add: nth_append)
  show "w \<le> bv" if "j < length (pre @ [Num v])" "(pre @ [Num v]) ! j = Num w" for j w
    using snoc_nth_cases [OF that] first_maxD3 [OF assms(1)] assms(2) by auto
  show "(pre @ [Num v]) ! j \<noteq> Num bv" if "j < b" for j
    using that b first_maxD4 [OF assms(1) that] by (simp add: nth_append)
qed

lemma first_max_snoc_gt:
  assumes "first_max pre b bv" "bv < v"
  shows "first_max (pre @ [Num v]) (length pre) v"
proof (rule first_maxI)
  show "length pre < length (pre @ [Num v])" by simp
  show "(pre @ [Num v]) ! length pre = Num v" by simp
  show "w \<le> v" if "j < length (pre @ [Num v])" "(pre @ [Num v]) ! j = Num w" for j w
    using snoc_nth_cases [OF that] first_maxD3 [OF assms(1)] assms(2) by fastforce
  show "(pre @ [Num v]) ! j \<noteq> Num v" if "j < length pre" for j
  proof
    assume "(pre @ [Num v]) ! j = Num v"
    then have "pre ! j = Num v" using that by (simp add: nth_append)
    then have "v \<le> bv" using first_maxD3 [OF assms(1) that] by blast
    then show False using assms(2) by simp
  qed
qed

lemma first_max_snoc_first:
  assumes "present pre = []"
  shows "first_max (pre @ [Num v]) (length pre) v"
proof (rule first_maxI)
  have none: "pre ! j \<noteq> Num w" if "j < length pre" for j w
    using assms present_Nil_iff nth_mem that by metis
  show "length pre < length (pre @ [Num v])" by simp
  show "(pre @ [Num v]) ! length pre = Num v" by simp
  show "w \<le> v" if "j < length (pre @ [Num v])" "(pre @ [Num v]) ! j = Num w" for j w
    using snoc_nth_cases [OF that] none by auto
  show "(pre @ [Num v]) ! j \<noteq> Num v" if "j < length pre" for j
    using that none by (simp add: nth_append)
qed

lemma argmax_from_inv:
  "best_ok pre best \<Longrightarrow> best_ok (pre @ cs) (argmax_from (length pre) best cs)"
proof (induction cs arbitrary: pre best)
  case Nil
  then show ?case by simp
next
  case (Cons c cs)
  show ?case
  proof (cases c)
    case NaN
    have "best_ok (pre @ [NaN]) best"
      using Cons.prems first_max_snoc_NaN
      by (auto simp: best_ok_def present_append split: option.splits)
    then have "best_ok ((pre @ [NaN]) @ cs) (argmax_from (length (pre @ [NaN])) best cs)"
      by (rule Cons.IH)
    then show ?thesis using NaN by simp
  next
    case (Num v)
    let ?b = "case best of None \<Rightarrow> Some (length pre, v)
              | Some (b, bv) \<Rightarrow> if bv < v then Some (length pre, v) else Some (b, bv)"
    have "best_ok (pre @ [Num v]) ?b"
      using Cons.prems first_max_snoc_first first_max_snoc_gt first_max_snoc_le
      by (auto simp: best_ok_def split: option.splits)
    then have "best_ok ((pre @ [Num v]) @ cs) (argmax_from (length (pre @ [Num v])) ?b cs)"
      by (rule Cons.IH)
    then show ?thesis using Num by simp
  qed
qed

lemma idxmax_first_max:
  assumes "present s \<noteq> []"
  shows "\<exists>i m. idxmax s = Inr i \<and> first_max s i m"
proof -
  have "best_ok ([] @ s) (argmax_from (length ([] :: series)) None s)"
    by (rule argmax_from_inv) (simp add: best_ok_def)
  then have b: "best_ok s (argmax_from 0 None s)" by simp
  show ?thesis
  proof (cases "argmax_from 0 None s")
    case None
    then show ?thesis using b assms by (simp add: best_ok_def)
  next
    case (Some p)
    then show ?thesis using b by (cases p) (auto simp: best_ok_def idxmax_def)
  qed
qed

lemma idxmax_no_value: "present s = [] \<Longrightarrow> idxmax s = Inl ValueError"
proof -
  assume a: "present s = []"
  have "best_ok ([] @ s) (argmax_from (length ([] :: series)) None s)"
    by (rule argmax_from_inv) (simp add: best_ok_def)
  then have b: "best_ok s (argmax_from 0 None s)" by simp
  show ?thesis
  proof (cases "argmax_from 0 None s")
    case None
    then show ?thesis by (simp add: idxmax_def)
  next
    case (Some p)
    then have "\<exists>i m. first_max s i m" using b by (cases p) (auto simp: best_ok_def)
    then obtain i m where "i < length s" "s ! i = Num m" by (auto simp: first_max_def)
    then have "Num m \<in> set s" using nth_mem by metis
    then show ?thesis using a present_Nil_iff by blast
  qed
qed

lemma fold_max_Max: "fold max xs (x::real) = Max (set (x # xs))"
  by (rule Max.set_eq_fold [symmetric])

lemma series_max_Max:
  assumes "present s \<noteq> []"
  shows "series_max s = Num (Max (set (present s)))"
proof -
  obtain x xs where p: "present s = x # xs" using assms by (cases "present s") auto
  then have "series_max s = Num (fold max xs x)" by (simp add: series_max_def)
  then show ?thesis unfolding p fold_max_Max .
qed

lemma first_max_is_Max:
  assumes "first_max s i m"
  shows "Max (set (present s)) = m"
proof (rule Max_eqI)
  show "finite (set (present s))" by simp
  have "Num m \<in> set s"
    using first_maxD1 [OF assms] first_maxD2 [OF assms] nth_mem by metis
  then show "m \<in> set (present s)" by (simp add: set_present)
  fix y assume "y \<in> set (present s)"
  then have "Num y \<in> set s" by (simp add: set_present)
  then obtain j where "j < length s" "s ! j = Num y" by (auto simp: in_set_conv_nth)
  then show "y \<le> m" using first_maxD3 [OF assms] by blast
qed

lemma table_ok_length:
  assumes "table_ok df n" "map_of df c = Some s"
  shows "length s = n"
proof -
  have "(c, s) \<in> set df" using assms(2) by (rule map_of_SomeD)
  moreover have "\<forall>p\<in>set df. length (snd p) = n"
    using assms(1) by (simp add: table_ok_def list_all_iff)
  ultimately show ?thesis by fastforce
qed

lemma column_absent_iff: "c \<notin> set (columns df) \<longleftrightarrow> map_of df c = None"
  by (simp add: columns_def map_of_eq_None_iff)

lemma column_present: "c \<in> set (columns df) \<Longrightarrow> \<exists>s. map_of df c = Some s"
  using column_absent_iff [of c df] by auto

lemma loc_Some:
  "table_ok df n \<Longrightarrow> map_of df c = Some s \<Longrightarrow> i < n \<Longrightarrow> loc df i c = Inr (s ! i)"
  using table_ok_length by (simp add: loc_def getitem_def)

lemma eccentricity_extremum_eq:
  assumes "table_ok df n" "map_of df ''eccentricity_mm'' = Some ecc"
    "map_of df ''Height_mm'' = Some hs" "idxmax ecc = Inr i" "i < n"
  shows "eccentricity_extremum df =
           Inr \<lparr>max_ecc = series_max ecc, max_ecc_z = hs ! i,
                max_ecc_angle = map_option (\<lambda>as. as ! i) (map_of df ''angle_from_bottom_deg'')\<rparr>"
proof (cases "map_of df ''angle_from_bottom_deg''")
  case None
  then have "''angle_from_bottom_deg'' \<notin> set (columns df)" by (simp add: column_absent_iff)
  then show ?thesis
    using assms None loc_Some [OF assms(1,3,5)]
    by (simp add: eccentricity_extremum_def getitem_def)
next
  case (Some as)
  then have "''angle_from_bottom_deg'' \<in> set (columns df)"
    using column_absent_iff [of "''angle_from_bottom_deg''" df] by auto
  then show ?thesis
    using assms Some loc_Some [OF assms(1,3,5)] loc_Some [OF assms(1) Some assms(5)]
    by (simp add: eccentricity_extremum_def getitem_def)
qed

lemma demo_ecc_result:
  "eccentricity_extremum demo_ecc =
     Inr \<lparr>max_ecc = Num 5, max_ecc_z = Num 10, max_ecc_angle = None\<rparr>"
  by (simp add: eccentricity_extremum_def demo_ecc_def table_eval)

lemma demo_ecc_angle_result:
  "eccentricity_extremum demo_ecc_angle =
     Inr \<lparr>max_ecc = Num 5, max_ecc_z = Num 10, max_ecc_angle = Some (Num 1.5)\<rparr>"
  by (simp add: eccentricity_extremum_def demo_ecc_angle_def table_eval)

text \<open>
  Claim C3. For a table with columns \<open>eccentricity_mm\<close> and \<open>Height_mm\<close> whose eccentricity
  column holds at least one number, the computation returns a result built from one row
  \<open>i\<close>: that row holds the maximum \<open>m\<close> of the column, no earlier row holds \<open>m\<close> (ties go
  to the first occurrence), and the height and the angle (when the table has an angle column)
  are read from row \<open>i\<close>. On the rows (0, 1.0), (10, 5.0), (20, 5.0) it returns the row of
  height 10.
\<close>

theorem eccentricity_extremum_first_max:
  assumes "table_ok df n" and "map_of df ''eccentricity_mm'' = Some ecc"
    and "map_of df ''Height_mm'' = Some hs" and "present ecc \<noteq> []"
  shows "(\<exists>r i m. eccentricity_extremum df = Inr r \<and> i < n \<and> ecc ! i = Num m \<and>
            (\<forall>j v. j < n \<and> ecc ! j = Num v \<longrightarrow> v \<le> m) \<and>
            (\<forall>j. j < i \<longrightarrow> ecc ! j \<noteq> Num m) \<and>
            max_ecc r = Num m \<and> max_ecc_z r = hs ! i \<and>
            max_ecc_angle r = map_option (\<lambda>as. as ! i) (map_of df ''angle_from_bottom_deg'')) \<and>
         eccentricity_extremum demo_ecc =
           Inr \<lparr>max_ecc = Num 5, max_ecc_z = Num 10, max_ecc_angle = None\<rparr>"
proof -
  obtain i m where im: "idxmax ecc = Inr i" "first_max ecc i m"
    using idxmax_first_max [OF assms(4)] by blast
  have len: "length ecc = n" using assms(1,2) by (rule table_ok_length)
  have i: "i < n" using first_maxD1 [OF im(2)] len by simp
  let ?r = "\<lparr>max_ecc = series_max ecc, max_ecc_z = hs ! i,
             max_ecc_angle = map_option (\<lambda>as. as ! i) (map_of df ''angle_from_bottom_deg'')\<rparr>"
  have r: "eccentricity_extremum df = Inr ?r"
    using assms(1,2,3) im(1) i by (rule eccentricity_extremum_eq)
  have mx: "series_max ecc = Num m"
    using series_max_Max [OF assms(4)] first_max_is_Max [OF im(2)] by simp
  have a: "ecc ! i = Num m" using im(2) by (rule first_maxD2)
  have b: "\<forall>j v. j < n \<and> ecc ! j = Num v \<longrightarrow> v \<le> m"
    using first_maxD3 [OF im(2)] len by blast
  have c: "\<forall>j. j < i \<longrightarrow> ecc ! j \<noteq> Num m"
    using first_maxD4 [OF im(2)] by blast
  have "eccentricity_extremum df = Inr ?r \<and> i < n \<and> ecc ! i = Num m \<and>
            (\<forall>j v. j < n \<and> ecc ! j = Num v \<longrightarrow> v \<le> m) \<and>
            (\<forall>j. j < i \<longrightarrow> ecc ! j \<noteq> Num m) \<and>
            max_ecc ?r = Num m \<and> max_ecc_z ?r = hs ! i \<and>
            max_ecc_angle ?r = map_option (\<lambda>as. as ! i) (map_of df ''angle_from_bottom_deg'')"
    using r i a b c mx by simp
  then show ?thesis using demo_ecc_result by blast
qed

theorem eccentricity_extremum_first_max_witness:
  "table_ok demo_ecc_angle 3 \<and> present [Num 1, Num 5, Num 5] \<noteq> [] \<and>
   (\<exists>r i. eccentricity_extremum demo_ecc_angle = Inr r \<and> i < 3 \<and>
      max_ecc_z r = [Num 0, Num 10, Num 20] ! i) \<and>
   eccentricity_extremum demo_ecc_angle =
     Inr \<lparr>max_ecc = Num 5, max_ecc_z = Num 10, max_ecc_angle = Some (Num 1.5)\<rparr>"
proof -
  have t: "table_ok demo_ecc_angle 3" by (simp add: table_ok_def demo_ecc_angle_def columns_def)
  have e: "map_of demo_ecc_angle ''eccentricity_mm'' = Some [Num 1, Num 5, Num 5]"
    by (simp add: demo_ecc_angle_def)
  have h: "map_of demo_ecc_angle ''Height_mm'' = Some [Num 0, Num 10, Num 20]"
    by (simp add: demo_ecc_angle_def)
  have p: "present [Num 1, Num 5, Num 5] \<noteq> []" by simp
  have "\<exists>r i. eccentricity_extremum demo_ecc_angle = Inr r \<and> i < 3 \<and>
      max_ecc_z r = [Num 0, Num 10, Num 20] ! i"
    using eccentricity_extremum_first_max [OF t e h p] by blast
  then show ?thesis using t p demo_ecc_angle_result by blast
qed

text \<open>
  Claim C8. When the table has no column \<open>angle_from_bottom_deg\<close>, lines 129-133 raise
  nothing: the angle of the result is \<open>None\<close>, and the maximum eccentricity and the height
  of its row are computed as usual.
\<close>

theorem missing_angle_gives_None:
  assumes "table_ok df n" and "map_of df ''eccentricity_mm'' = Some ecc"
    and "map_of df ''Height_mm'' = Some hs" and "present ecc \<noteq> []"
    and "''angle_from_bottom_deg'' \<notin> set (columns df)"
  shows "\<exists>r i. eccentricity_extremum df = Inr r \<and> max_ecc_angle r = None \<and>
           idxmax ecc = Inr i \<and> max_ecc r = series_max ecc \<and> max_ecc_z r = hs ! i"
proof -
  obtain i m where im: "idxmax ecc = Inr i" "first_max ecc i m"
    using idxmax_first_max [OF assms(4)] by blast
  have len: "length ecc = n" using assms(1,2) by (rule table_ok_length)
  have i: "i < n" using first_maxD1 [OF im(2)] len by simp
  have no: "map_of df ''angle_from_bottom_deg'' = None"
    using assms(5) by (simp add: column_absent_iff)
  have "eccentricity_extremum df =
          Inr \<lparr>max_ecc = series_max ecc, max_ecc_z = hs ! i, max_ecc_angle = None\<rparr>"
    using eccentricity_extremum_eq [OF assms(1,2,3) im(1) i] no by simp
  then show ?thesis using im(1) by simp
qed

theorem missing_angle_gives_None_witness:
  "table_ok demo_ecc 3 \<and> ''angle_from_bottom_deg'' \<notin> set (columns demo_ecc) \<and>
   (\<exists>r. eccentricity_extremum demo_ecc = Inr r \<and> max_ecc_angle r = None \<and>
      max_ecc r = Num 5 \<and> max_ecc_z r = Num 10)"
proof -
  have t: "table_ok demo_ecc 3" by (simp add: table_ok_def demo_ecc_def columns_def)
  have e: "map_of demo_ecc ''eccentricity_mm'' = Some [Num 1, Num 5, Num 5]"
    by (simp add: demo_ecc_def)
  have h: "map_of demo_ecc ''Height_mm'' = Some [Num 0, Num 10, Num 20]"
    by (simp add: demo_ecc_def)
  have p: "present [Num 1, Num 5, Num 5] \<noteq> []" by simp
  have a: "''angle_from_bottom_deg'' \<notin> set (columns demo_ecc)"
    by (simp add: demo_ecc_def columns_def)
  obtain r where r: "eccentricity_extremum demo_ecc = Inr r" "max_ecc_angle r = None"
    using missing_angle_gives_None [OF t e h p a] by blast
  then have "max_ecc r = Num 5 \<and> max_ecc_z r = Num 10" using demo_ecc_result by auto
  then show ?thesis using t a r by blast
qed

lemma sublist_map_iff:
  "sublist w (map f c) \<longleftrightarrow> (\<exists>u. sublist u c \<and> map f u = w)"
proof
  assume "sublist w (map f c)"
  then obtain ps ss where "map f c = ps @ w @ ss" by (auto simp: sublist_def)
  then have "\<exists>c1 vs. c = c1 @ vs \<and> ps = map f c1 \<and> w @ ss = map f vs"
    by (simp only: map_eq_append_conv)
  then obtain c1 vs where c1: "c = c1 @ vs" "map f vs = w @ ss" by metis
  from c1(2) have "\<exists>c2 c3. vs = c2 @ c3 \<and> w = map f c2 \<and> ss = map f c3"
    by (simp only: map_eq_append_conv)
  then obtain c2 c3 where c2: "vs = c2 @ c3" "map f c2 = w" by metis
  have "c = c1 @ c2 @ c3" using c1(1) c2(1) by simp
  then have "sublist c2 c" unfolding sublist_def by blast
  then show "\<exists>u. sublist u c \<and> map f u = w" using c2(2) by blast
next
  assume "\<exists>u. sublist u c \<and> map f u = w"
  then obtain u ps ss where "c = ps @ u @ ss" "map f u = w" by (auto simp: sublist_def)
  then have "map f c = map f ps @ w @ map f ss" by simp
  then show "sublist w (map f c)" unfolding sublist_def by blast
qed

lemma is_centroid_x_iff:
  "is_centroid_x col \<longleftrightarrow>
     (\<exists>u. sublist u col \<and> lower u = ''centroid'') \<and> (\<exists>v. sublist v col \<and> lower v = ''x'')"
  unfolding is_centroid_x_def lower_def sublist_map_iff ..

lemma iloc0_nonempty: "0 < length s \<Longrightarrow> iloc0 s = Inr (s ! 0)"
  by (cases s) (simp_all add: iloc0_def)

lemma demo_ref_result: "bottom_reference demo_ref = Inr (Num 0, Num 3.5)"
  by (simp add: bottom_reference_def demo_ref_def table_eval is_centroid_x_def lower_def
      lower_char_def sublist_code)

lemma filter_first_match:
  assumes "xs = pre @ c # post" "\<forall>p. p \<in> set pre \<longrightarrow> \<not> P p" "P c"
  shows "filter P xs = c # filter P post"
proof -
  have "filter P pre = []" using assms(2) by (simp add: filter_empty_conv)
  then show ?thesis using assms(1,3) by simp
qed

text \<open>
  Claim C5. For a table with at least one row and a column \<open>Height_mm\<close>, the bottom
  reference is the pair of the first height and \<open>x\<close>, where \<open>x\<close> is \<open>0.0\<close> when no column
  name contains, after lowering, both \<open>centroid\<close> and \<open>x\<close>, and otherwise the first cell of
  the first such column in column order. On the table whose first row is
  (\<open>Height_mm\<close> = 0.0, \<open>Centroid_X\<close> = 3.5) it returns (0.0, 3.5).
\<close>

theorem bottom_reference_first_row:
  assumes "table_ok df n" and "0 < n" and "map_of df ''Height_mm'' = Some hs"
  shows "(\<exists>x. bottom_reference df = Inr (hs ! 0, x) \<and>
            ((\<forall>c. c \<in> set (columns df) \<longrightarrow> \<not> is_centroid_x c) \<longrightarrow> x = Num 0) \<and>
            (\<forall>pre c post s. columns df = pre @ c # post \<and>
                (\<forall>p. p \<in> set pre \<longrightarrow> \<not> is_centroid_x p) \<and> is_centroid_x c \<and>
                map_of df c = Some s \<longrightarrow> x = s ! 0)) \<and>
         bottom_reference demo_ref = Inr (Num 0, Num 3.5)"
proof -
  have g: "getitem df ''Height_mm'' = Inr hs" using assms(3) by (simp add: getitem_def)
  have "length hs = n" using assms(1,3) by (rule table_ok_length)
  then have z: "iloc0 hs = Inr (hs ! 0)" using assms(2) by (simp add: iloc0_nonempty)
  have main: "\<exists>x. bottom_reference df = Inr (hs ! 0, x) \<and>
            ((\<forall>c. c \<in> set (columns df) \<longrightarrow> \<not> is_centroid_x c) \<longrightarrow> x = Num 0) \<and>
            (\<forall>pre c post s. columns df = pre @ c # post \<and>
                (\<forall>p. p \<in> set pre \<longrightarrow> \<not> is_centroid_x p) \<and> is_centroid_x c \<and>
                map_of df c = Some s \<longrightarrow> x = s ! 0)"
  proof (cases "filter is_centroid_x (columns df)")
    case Nil
    then have r: "bottom_reference df = Inr (hs ! 0, Num 0)"
      using g z by (simp add: bottom_reference_def)
    have none: "\<forall>c. c \<in> set (columns df) \<longrightarrow> \<not> is_centroid_x c"
      using Nil by (simp add: filter_empty_conv)
    have "\<forall>pre c post s. columns df = pre @ c # post \<and>
                (\<forall>p. p \<in> set pre \<longrightarrow> \<not> is_centroid_x p) \<and> is_centroid_x c \<and>
                map_of df c = Some s \<longrightarrow> Num 0 = s ! 0"
    proof (intro allI impI)
      fix pre c post s
      assume "columns df = pre @ c # post \<and>
                (\<forall>p. p \<in> set pre \<longrightarrow> \<not> is_centroid_x p) \<and> is_centroid_x c \<and>
                map_of df c = Some s"
      then have "c \<in> set (columns df)" "is_centroid_x c" by simp_all
      then show "Num 0 = s ! 0" using none by blast
    qed
    then show ?thesis using r by blast
  next
    case (Cons x0 rest)
    have "x0 \<in> set (filter is_centroid_x (columns df))" using Cons by simp
    then have x0: "x0 \<in> set (columns df)" "is_centroid_x x0" by simp_all
    then obtain s0 where s0: "map_of df x0 = Some s0" using column_present by blast
    have "length s0 = n" using assms(1) s0 by (rule table_ok_length)
    then have i0: "iloc0 s0 = Inr (s0 ! 0)" using assms(2) by (simp add: iloc0_nonempty)
    have r: "bottom_reference df = Inr (hs ! 0, s0 ! 0)"
      using g z Cons s0 i0 by (simp add: bottom_reference_def getitem_def)
    have "\<forall>pre c post s. columns df = pre @ c # post \<and>
                (\<forall>p. p \<in> set pre \<longrightarrow> \<not> is_centroid_x p) \<and> is_centroid_x c \<and>
                map_of df c = Some s \<longrightarrow> s0 ! 0 = s ! 0"
    proof (intro allI impI)
      fix pre c post s
      assume a: "columns df = pre @ c # post \<and>
                (\<forall>p. p \<in> set pre \<longrightarrow> \<not> is_centroid_x p) \<and> is_centroid_x c \<and>
                map_of df c = Some s"
      then have "filter is_centroid_x (columns df) = c # filter is_centroid_x post"
        using filter_first_match [of "columns df" pre c post is_centroid_x] by blast
      then have "c = x0" using Cons by simp
      then have "s = s0" using a s0 by simp
      then show "s0 ! 0 = s ! 0" by simp
    qed
    moreover have "(\<forall>c. c \<in> set (columns df) \<longrightarrow> \<not> is_centroid_x c) \<longrightarrow> s0 ! 0 = Num 0"
      using x0 by blast
    ultimately show ?thesis using r by blast
  qed
  show ?thesis using main demo_ref_result by blast
qed

theorem bottom_reference_first_row_witness:
  "table_ok demo_ref 1 \<and> (0::nat) < 1 \<and> map_of demo_ref ''Height_mm'' = Some [Num 0] \<and>
   columns demo_ref = [''Height_mm''] @ ''Centroid_X'' # [] \<and>
   \<not> is_centroid_x ''Height_mm'' \<and> is_centroid_x ''Centroid_X'' \<and>
   bottom_reference demo_ref = Inr ([Num 0] ! 0, [Num 3.5] ! 0)"
proof -
  have t: "table_ok demo_ref 1" by (simp add: table_ok_def demo_ref_def columns_def)
  have n: "(0::nat) < 1" by simp
  have h: "map_of demo_ref ''Height_mm'' = Some [Num 0]" by (simp add: demo_ref_def)
  have c: "columns demo_ref = [''Height_mm''] @ ''Centroid_X'' # []"
    by (simp add: demo_ref_def columns_def)
  have p: "\<not> is_centroid_x ''Height_mm''"
    by (simp add: is_centroid_x_def lower_def lower_char_def sublist_code)
  then have p': "\<forall>p. p \<in> set [''Height_mm''] \<longrightarrow> \<not> is_centroid_x p" by simp
  have q: "is_centroid_x ''Centroid_X''"
    by (simp add: is_centroid_x_def lower_def lower_char_def sublist_code)
  have s: "map_of demo_ref ''Centroid_X'' = Some [Num 3.5]" by (simp add: demo_ref_def)
  obtain x where x: "bottom_reference demo_ref = Inr ([Num 0] ! 0, x)"
    "\<forall>pre c post s. columns demo_ref = pre @ c # post \<and>
        (\<forall>p. p \<in> set pre \<longrightarrow> \<not> is_centroid_x p) \<and> is_centroid_x c \<and>
        map_of demo_ref c = Some s \<longrightarrow> x = s ! 0"
    using bottom_reference_first_row [OF t n h] by blast
  have "x = [Num 3.5] ! 0" using x(2) c p' q s by blast
  then show ?thesis using t n h c p q x(1) by blast
qed

end
